theory Spec2Isabelle
  imports Main
begin

section \<open>The node attachment tracker of \<open>useRefCallback\<close>\<close>

text \<open>
  The hook keeps a \<open>Map<string, VoidFunction>\<close> in a ref and hands out one callback
  \<open>(node, nodeId = 'single') => ...\<close>. The caller-supplied effect and the cleanups it
  returns are arbitrary JavaScript functions: they act on the rest of the program (the
  world \<open>'w\<close>) and may throw (an exception \<open>'e\<close>). A function that does not return a
  value is therefore a world transformer with an optional exception.

  The map lives in a ref that only the callback touches and, as the host issues the
  calls one at a time, the caller-supplied functions are taken not to call back into
  the same callback while they run: they change the world, never the map.
\<close>

subsection \<open>Data\<close>

text \<open>
  \<open>VoidFunction\<close>: a call returns the exception it threw, if any, and the world as
  it left it. Two functions are the same function in this model when they behave the
  same on every world; JavaScript tells two such function objects apart.
\<close>

type_synonym ('w, 'e) VoidFunction = "'w \<Rightarrow> 'e option \<times> 'w"

text \<open>
  What a call of \<open>effect(node)\<close> does: it throws, or it returns a value that
  \<open>typeof\<close> classifies as a function (\<open>Some f\<close>) or as anything else (\<open>None\<close>).
\<close>

datatype ('w, 'e) effect_return =
    Threw 'e
  | Returned "('w, 'e) VoidFunction option"

type_synonym ('n, 'w, 'e) RefCallbackEffect = "'n \<Rightarrow> 'w \<Rightarrow> ('w, 'e) effect_return \<times> 'w"

text \<open>The caller-supplied functions the callback has invoked, in order.\<close>

datatype ('n, 'w, 'e) invocation =
    EffectCall 'n
  | CleanupCall "('w, 'e) VoidFunction"

record ('n, 'w, 'e) tracker =
  cleanupsMap :: "string \<rightharpoonup> ('w, 'e) VoidFunction"
  world :: 'w
  invoked :: "('n, 'w, 'e) invocation list"

definition new_tracker :: "'w \<Rightarrow> ('n, 'w, 'e) tracker" where
  "new_tracker w = \<lparr>cleanupsMap = Map.empty, world = w, invoked = []\<rparr>"

subsection \<open>The callback\<close>

text \<open>The default parameter \<open>nodeId = 'single'\<close>: an omitted identifier is \<open>None\<close>.\<close>

definition default_nodeId :: "string option \<Rightarrow> string" where
  "default_nodeId nodeId = (case nodeId of None \<Rightarrow> ''single'' | Some k \<Rightarrow> k)"

text \<open>
  The arrow function given to \<open>useCallback\<close>. The result pairs the exception that
  left the call, if any, with the tracker as the call left it. A statement after a
  throwing call is not run: a throwing effect skips \<open>set\<close>, a throwing cleanup skips
  \<open>delete\<close>.
\<close>

definition refCallback ::
  "('n, 'w, 'e) RefCallbackEffect \<Rightarrow> 'n option \<Rightarrow> string option \<Rightarrow>
   ('n, 'w, 'e) tracker \<Rightarrow> 'e option \<times> ('n, 'w, 'e) tracker" where
  "refCallback effect node nodeId s =
     (let k = default_nodeId nodeId in
      case node of
        Some n \<Rightarrow>
          (case effect n (world s) of
             (Threw e, w) \<Rightarrow>
               (Some e, s\<lparr>world := w, invoked := invoked s @ [EffectCall n]\<rparr>)
           | (Returned cleanupCallback, w) \<Rightarrow>
               (case cleanupCallback of
                  Some f \<Rightarrow>
                    (None, s\<lparr>cleanupsMap := (cleanupsMap s)(k \<mapsto> f), world := w,
                              invoked := invoked s @ [EffectCall n]\<rparr>)
                | None \<Rightarrow>
                    (None, s\<lparr>world := w, invoked := invoked s @ [EffectCall n]\<rparr>)))
      | None \<Rightarrow>
          (case cleanupsMap s k of
             Some currNodeCleanup \<Rightarrow>
               (case currNodeCleanup (world s) of
                  (Some e, w) \<Rightarrow>
                    (Some e, s\<lparr>world := w,
                                invoked := invoked s @ [CleanupCall currNodeCleanup]\<rparr>)
                | (None, w) \<Rightarrow>
                    (None, s\<lparr>cleanupsMap := (cleanupsMap s)(k := None), world := w,
                              invoked := invoked s @ [CleanupCall currNodeCleanup]\<rparr>))
           | None \<Rightarrow> (None, s)))"

subsection \<open>Sequences of calls\<close>

text \<open>
  The host issues calls one after the other. Each call carries the effect its callback
  closed over, since a later render may hand out a callback over another effect while
  the map stays the same. An exception leaves the call, not the tracker: the next call
  finds the map as the throwing call left it.
\<close>

datatype ('n, 'w, 'e) call =
  Call (call_effect: "('n, 'w, 'e) RefCallbackEffect") (call_node: "'n option")
       (call_id: "string option")

definition invoke ::
  "('n, 'w, 'e) call \<Rightarrow> ('n, 'w, 'e) tracker \<Rightarrow> 'e option \<times> ('n, 'w, 'e) tracker" where
  "invoke c s = refCallback (call_effect c) (call_node c) (call_id c) s"

fun run_calls :: "('n, 'w, 'e) call list \<Rightarrow> ('n, 'w, 'e) tracker \<Rightarrow> ('n, 'w, 'e) tracker" where
  "run_calls [] s = s"
| "run_calls (c # cs) s = run_calls cs (snd (invoke c s))"

subsection \<open>Histories\<close>

text \<open>
  A history records every call with the tracker before it, the exception that left it
  and the tracker after it; the statements about "the most recent attach" and "has
  not yet run" are read off it.
\<close>

record ('n, 'w, 'e) step =
  taken :: "('n, 'w, 'e) call"
  before :: "('n, 'w, 'e) tracker"
  outcome :: "'e option"
  after :: "('n, 'w, 'e) tracker"

definition step_of :: "('n, 'w, 'e) call \<Rightarrow> ('n, 'w, 'e) tracker \<Rightarrow> ('n, 'w, 'e) step" where
  "step_of c s =
     \<lparr>taken = c, before = s, outcome = fst (invoke c s), after = snd (invoke c s)\<rparr>"

fun history :: "('n, 'w, 'e) call list \<Rightarrow> ('n, 'w, 'e) tracker \<Rightarrow> ('n, 'w, 'e) step list" where
  "history [] s = []"
| "history (c # cs) s = step_of c s # history cs (snd (invoke c s))"

definition step_key :: "('n, 'w, 'e) step \<Rightarrow> string" where
  "step_key st = default_nodeId (call_id (taken st))"

definition attach_under :: "string \<Rightarrow> ('n, 'w, 'e) step \<Rightarrow> bool" where
  "attach_under K st \<longleftrightarrow> call_node (taken st) \<noteq> None \<and> step_key st = K"

text \<open>The cleanup action the effect returned at a step, if the step ran the effect and
  the effect returned one.\<close>

definition cleanup_returned :: "('n, 'w, 'e) step \<Rightarrow> ('w, 'e) VoidFunction option" where
  "cleanup_returned st =
     (case call_node (taken st) of
        None \<Rightarrow> None
      | Some n \<Rightarrow>
          (case fst (call_effect (taken st) n (world (before st))) of
             Threw e \<Rightarrow> None
           | Returned r \<Rightarrow> r))"

text \<open>The functions a step invoked, and those invoked between two trackers.\<close>

definition new_invocations ::
  "('n, 'w, 'e) tracker \<Rightarrow> ('n, 'w, 'e) tracker \<Rightarrow> ('n, 'w, 'e) invocation list" where
  "new_invocations s s' = drop (length (invoked s)) (invoked s')"

definition step_invocations :: "('n, 'w, 'e) step \<Rightarrow> ('n, 'w, 'e) invocation list" where
  "step_invocations st = new_invocations (before st) (after st)"

text \<open>
  The invariant in the specification's words: the effect returned a cleanup action at
  the most recent attach of a node under \<open>K\<close>, and no step since has invoked it.
\<close>

definition entry_expected_as_stated :: "string \<Rightarrow> ('n, 'w, 'e) step list \<Rightarrow> bool" where
  "entry_expected_as_stated K h =
     (case dropWhile (\<lambda>st. \<not> attach_under K st) (rev h) of
        [] \<Rightarrow> False
      | st # earlier \<Rightarrow>
          (case cleanup_returned st of
             None \<Rightarrow> False
           | Some f \<Rightarrow>
               CleanupCall f \<notin>
                 set (concat (map step_invocations
                   (takeWhile (\<lambda>st. \<not> attach_under K st) (rev h))))))"

text \<open>
  What the code keeps instead. A step registers under \<open>K\<close> when it attaches a node
  under \<open>K\<close> and the effect returns a cleanup action; it completes a detach under
  \<open>K\<close> when it passes no node under \<open>K\<close> and returns without an exception.
\<close>

definition registers :: "string \<Rightarrow> ('n, 'w, 'e) step \<Rightarrow> bool" where
  "registers K st \<longleftrightarrow> attach_under K st \<and> cleanup_returned st \<noteq> None"

definition detach_completes :: "string \<Rightarrow> ('n, 'w, 'e) step \<Rightarrow> bool" where
  "detach_completes K st \<longleftrightarrow>
     call_node (taken st) = None \<and> step_key st = K \<and> outcome st = None"

definition entry_expected :: "string \<Rightarrow> ('n, 'w, 'e) step list \<Rightarrow> bool" where
  "entry_expected K h =
     (case filter (\<lambda>st. registers K st \<or> detach_completes K st) h of
        [] \<Rightarrow> False
      | st # sts \<Rightarrow> registers K (last (st # sts)))"

text \<open>Calls none of which is made under \<open>K\<close>.\<close>

definition no_call_under :: "string \<Rightarrow> ('n, 'w, 'e) call list \<Rightarrow> bool" where
  "no_call_under K cs = list_all (\<lambda>c. default_nodeId (call_id c) \<noteq> K) cs"

subsection \<open>The callback's identity across renders\<close>

text \<open>
  Every render evaluates the arrow function anew, so each render has a function of its
  own: the render's number is its identity. The effect and the dependencies are values
  of a type \<open>'d\<close> on which equality is the host's comparison of two dependencies.
\<close>

datatype 'd callback = Callback (created_at: nat) (closed_over: 'd)

text \<open>
  Modelled from the spec: the host framework's \<open>useCallback\<close> and its comparison of
  dependency lists are not part of the repository; the specification has the tracker
  mirror the host's convention exactly. The host compares the new list with the stored
  one position by position, over the positions both lists have, and takes them for
  equal when no such position differs. While they are equal it hands out the stored
  callback and keeps what it stored; otherwise it stores the new function with the new
  list. The first render stores the new function.
\<close>

definition areHookInputsEqual :: "'d list \<Rightarrow> 'd list \<Rightarrow> bool" where
  "areHookInputsEqual nextDeps prevDeps = list_all (\<lambda>(n, p). n = p) (zip nextDeps prevDeps)"

definition useCallback ::
  "'f \<Rightarrow> 'd list \<Rightarrow> ('f \<times> 'd list) option \<Rightarrow> 'f \<times> ('f \<times> 'd list) option" where
  "useCallback fn deps cell =
     (case cell of
        None \<Rightarrow> (fn, Some (fn, deps))
      | Some (prevFn, prevDeps) \<Rightarrow>
          if areHookInputsEqual deps prevDeps then (prevFn, cell)
          else (fn, Some (fn, deps)))"

record 'd hook =
  memo :: "('d callback \<times> 'd list) option"
  renders :: nat

definition mount :: "'d hook" where
  "mount = \<lparr>memo = None, renders = 0\<rparr>"

text \<open>One render of \<open>useRefCallback(effect, deps)\<close>: the dependency list handed to the
  host is \<open>[effect, ...deps]\<close>.\<close>

definition useRefCallback :: "'d \<Rightarrow> 'd list \<Rightarrow> 'd hook \<Rightarrow> 'd callback \<times> 'd hook" where
  "useRefCallback effect deps h =
     (case useCallback (Callback (renders h) effect) (effect # deps) (memo h) of
        (cb, cell) \<Rightarrow> (cb, \<lparr>memo = cell, renders = Suc (renders h)\<rparr>))"

fun rerender :: "('d \<times> 'd list) list \<Rightarrow> 'd hook \<Rightarrow> 'd hook" where
  "rerender [] h = h"
| "rerender ((effect, deps) # rs) h = rerender rs (snd (useRefCallback effect deps h))"

text \<open>The stored callback was created at an earlier render than the next one, and the
  list stored with it is the effect with \<open>L\<close> dependencies.\<close>

definition memo_ok :: "nat \<Rightarrow> 'd hook \<Rightarrow> bool" where
  "memo_ok L h \<longleftrightarrow>
     (case memo h of
        None \<Rightarrow> True
      | Some (cb, ds) \<Rightarrow> created_at cb < renders h \<and> length ds = Suc L)"

subsection \<open>Example effects\<close>

text \<open>The specification's example: a cleanup that pushes to a log.\<close>

definition log_cleanup :: "string \<Rightarrow> (string list, string) VoidFunction" where
  "log_cleanup x w = (None, w @ [''cleanup:'' @ x])"

definition log_effect :: "(string, string list, string) RefCallbackEffect" where
  "log_effect node w = (Returned (Some (log_cleanup node)), w @ [''effect:'' @ node])"

text \<open>An effect that returns a cleanup for \<open>nodeA\<close> only.\<close>

definition picky_effect :: "(string, string list, string) RefCallbackEffect" where
  "picky_effect node w =
     (Returned (if node = ''nodeA'' then Some (log_cleanup node) else None), w)"

text \<open>A cleanup that throws, an effect that returns it, and an effect that throws.\<close>

definition failing_cleanup :: "(string list, string) VoidFunction" where
  "failing_cleanup w = (Some ''cleanup failed'', w @ [''cleanup:tried''])"

definition fragile_effect :: "(string, string list, string) RefCallbackEffect" where
  "fragile_effect node w = (Returned (Some failing_cleanup), w)"

definition failing_effect :: "(string, string list, string) RefCallbackEffect" where
  "failing_effect node w = (Threw ''effect failed'', w)"

text \<open>An effect that returns one and the same cleanup function for every node.\<close>

definition shared_cleanup :: "(string list, string) VoidFunction" where
  "shared_cleanup w = (None, w @ [''cleanup:shared''])"

definition shared_effect :: "(string, string list, string) RefCallbackEffect" where
  "shared_effect node w = (Returned (Some shared_cleanup), w)"

section \<open>Properties\<close>

subsection \<open>Single calls\<close>

lemma refCallback_attach_cleanup:
  "effect n (world s) = (Returned (Some f), w) \<Longrightarrow>
   refCallback effect (Some n) nodeId s =
     (None, s\<lparr>cleanupsMap := (cleanupsMap s)(default_nodeId nodeId \<mapsto> f), world := w,
               invoked := invoked s @ [EffectCall n]\<rparr>)"
  by (simp add: refCallback_def)

lemma refCallback_attach_void:
  "effect n (world s) = (Returned None, w) \<Longrightarrow>
   refCallback effect (Some n) nodeId s =
     (None, s\<lparr>world := w, invoked := invoked s @ [EffectCall n]\<rparr>)"
  by (simp add: refCallback_def)

lemma refCallback_attach_threw:
  "effect n (world s) = (Threw e, w) \<Longrightarrow>
   refCallback effect (Some n) nodeId s =
     (Some e, s\<lparr>world := w, invoked := invoked s @ [EffectCall n]\<rparr>)"
  by (simp add: refCallback_def)

lemma refCallback_detach_returns:
  "cleanupsMap s (default_nodeId nodeId) = Some f \<Longrightarrow> f (world s) = (None, w) \<Longrightarrow>
   refCallback effect None nodeId s =
     (None, s\<lparr>cleanupsMap := (cleanupsMap s)(default_nodeId nodeId := None), world := w,
               invoked := invoked s @ [CleanupCall f]\<rparr>)"
  by (simp add: refCallback_def)

lemma refCallback_detach_threw:
  "cleanupsMap s (default_nodeId nodeId) = Some f \<Longrightarrow> f (world s) = (Some e, w) \<Longrightarrow>
   refCallback effect None nodeId s =
     (Some e, s\<lparr>world := w, invoked := invoked s @ [CleanupCall f]\<rparr>)"
  by (simp add: refCallback_def)

lemma refCallback_detach_absent:
  "cleanupsMap s (default_nodeId nodeId) = None \<Longrightarrow> refCallback effect None nodeId s = (None, s)"
  by (simp add: refCallback_def)

text \<open>A detach under an identifier with an entry runs the entry on the world.\<close>

lemma refCallback_detach_entry:
  assumes "cleanupsMap s (default_nodeId nodeId) = Some f"
  shows "refCallback effect None nodeId s =
     (fst (f (world s)),
      s\<lparr>cleanupsMap :=
           (if fst (f (world s)) = None then (cleanupsMap s)(default_nodeId nodeId := None)
            else cleanupsMap s),
         world := snd (f (world s)),
         invoked := invoked s @ [CleanupCall f]\<rparr>)"
proof (cases "f (world s)")
  case (Pair r w)
  with assms show ?thesis
    by (cases r) (simp_all add: refCallback_detach_returns refCallback_detach_threw)
qed

text \<open>A call under another identifier leaves the entry of \<open>K\<close> alone.\<close>

lemma refCallback_other_key:
  "default_nodeId nodeId \<noteq> K \<Longrightarrow>
   cleanupsMap (snd (refCallback effect node nodeId s)) K = cleanupsMap s K"
  by (simp add: refCallback_def Let_def split: option.splits prod.splits effect_return.splits)

lemma run_calls_other_keys:
  "no_call_under K cs \<Longrightarrow> cleanupsMap (run_calls cs s) K = cleanupsMap s K"
  by (induction cs arbitrary: s) (simp_all add: no_call_under_def invoke_def refCallback_other_key)

lemma refCallback_invoked_grows:
  "\<exists>evs. invoked (snd (refCallback effect node nodeId s)) = invoked s @ evs \<and> length evs \<le> 1"
  by (simp add: refCallback_def Let_def split: option.splits prod.splits effect_return.splits)

lemma run_calls_invoked_grows:
  "\<exists>evs. invoked (run_calls cs s) = invoked s @ evs"
proof (induction cs arbitrary: s)
  case Nil
  show ?case by simp
next
  case (Cons c cs)
  obtain e1 where e1: "invoked (snd (invoke c s)) = invoked s @ e1"
    using refCallback_invoked_grows [of "call_effect c" "call_node c" "call_id c" s]
    by (auto simp: invoke_def)
  obtain e2 where "invoked (run_calls cs (snd (invoke c s))) = invoked (snd (invoke c s)) @ e2"
    using Cons.IH by blast
  with e1 show ?case by simp
qed

text \<open>The definitions that evaluate a run of the example effects.\<close>

lemmas example_defs =
  invoke_def refCallback_def default_nodeId_def new_tracker_def Let_def
  log_effect_def picky_effect_def fragile_effect_def failing_effect_def shared_effect_def

subsection \<open>Detaching where nothing is registered\<close>

text \<open>
  Claim C4. Detaching under an identifier that has no entry in the map (an omitted
  identifier standing for \<open>single\<close>) is a no-op: the call returns without an
  exception and leaves the tracker as it was, so the map is unchanged and neither an
  effect nor a cleanup has been invoked.
\<close>

theorem detach_without_entry_is_noop:
  assumes "cleanupsMap s (default_nodeId nodeId) = None"
  shows "refCallback effect None nodeId s = (None, s)"
  using assms by (simp add: refCallback_def)

theorem detach_without_entry_is_noop_witness:
  "cleanupsMap (run_calls [Call log_effect (Some ''nodeA'') (Some ''x'')] (new_tracker [])) ''y'' = None \<and>
   refCallback log_effect None (Some ''y'')
       (run_calls [Call log_effect (Some ''nodeA'') (Some ''x'')] (new_tracker []))
     = (None, run_calls [Call log_effect (Some ''nodeA'') (Some ''x'')] (new_tracker []))"
proof -
  let ?s = "run_calls [Call log_effect (Some ''nodeA'') (Some ''x'')] (new_tracker [])"
  have h: "cleanupsMap ?s (default_nodeId (Some ''y'')) = None"
    by (simp add: invoke_def refCallback_def default_nodeId_def log_effect_def new_tracker_def)
  from detach_without_entry_is_noop [OF h, of log_effect] h
  show ?thesis by (simp add: default_nodeId_def)
qed

subsection \<open>Failures of the effect and of a cleanup\<close>

text \<open>
  Claim C9. When the effect throws at an attach, the map after the call is the map
  before it: the effect runs before \<open>set\<close>, which the exception skips.
\<close>

theorem effect_failure_leaves_registry:
  assumes "fst (effect n (world s)) = Threw e"
  shows "cleanupsMap (snd (refCallback effect (Some n) nodeId s)) = cleanupsMap s"
  using assms by (cases "effect n (world s)") (simp add: refCallback_attach_threw)

theorem effect_failure_leaves_registry_witness:
  "fst (failing_effect ''nodeB''
      (world (run_calls [Call log_effect (Some ''nodeA'') (Some ''x'')] (new_tracker []))))
     = Threw ''effect failed'' \<and>
   cleanupsMap (snd (refCallback failing_effect (Some ''nodeB'') (Some ''x'')
       (run_calls [Call log_effect (Some ''nodeA'') (Some ''x'')] (new_tracker []))))
     = cleanupsMap (run_calls [Call log_effect (Some ''nodeA'') (Some ''x'')] (new_tracker []))
   \<and> cleanupsMap (run_calls [Call log_effect (Some ''nodeA'') (Some ''x'')] (new_tracker [])) ''x''
     = Some (log_cleanup ''nodeA'')"
proof -
  let ?s = "run_calls [Call log_effect (Some ''nodeA'') (Some ''x'')] (new_tracker [])"
  have h: "fst (failing_effect ''nodeB'' (world ?s)) = Threw ''effect failed''"
    by (simp add: failing_effect_def)
  have "cleanupsMap ?s ''x'' = Some (log_cleanup ''nodeA'')"
    by (simp add: example_defs)
  with h effect_failure_leaves_registry
    [where effect = failing_effect and n = "''nodeB''" and s = ?s and e = "''effect failed''"
       and nodeId = "Some ''x''"]
  show ?thesis by simp
qed

text \<open>
  Claim C10. When the stored cleanup throws at a detach under an identifier, the
  exception leaves the call, the cleanup has run once on the world, and the map is
  unchanged, the entry still there. After any calls under other identifiers, the next
  detach under the identifier runs the same cleanup again: its outcome and the world
  it leaves are those of the cleanup, which is the one function it invokes, and the
  entry goes only if the cleanup returns this time.
\<close>

theorem cleanup_failure_keeps_entry:
  assumes "cleanupsMap s (default_nodeId nodeId) = Some f"
    and "fst (f (world s)) = Some e"
    and "no_call_under (default_nodeId nodeId) cs"
    and "s' = snd (refCallback effect None nodeId s)"
    and "s'' = run_calls cs s'"
    and "again = refCallback effect' None nodeId s''"
  shows "fst (refCallback effect None nodeId s) = Some e \<and>
         new_invocations s s' = [CleanupCall f] \<and>
         world s' = snd (f (world s)) \<and>
         cleanupsMap s' = cleanupsMap s \<and>
         cleanupsMap s'' (default_nodeId nodeId) = Some f \<and>
         fst again = fst (f (world s'')) \<and>
         world (snd again) = snd (f (world s'')) \<and>
         new_invocations s'' (snd again) = [CleanupCall f] \<and>
         cleanupsMap (snd again) =
           (if fst (f (world s'')) = None then (cleanupsMap s'')(default_nodeId nodeId := None)
            else cleanupsMap s'')"
proof -
  have first: "refCallback effect None nodeId s =
      (Some e, s\<lparr>world := snd (f (world s)), invoked := invoked s @ [CleanupCall f]\<rparr>)"
    using assms(2) by (simp add: refCallback_detach_entry [OF assms(1)])
  then have s': "s' = s\<lparr>world := snd (f (world s)), invoked := invoked s @ [CleanupCall f]\<rparr>"
    using assms(4) by simp
  have entry: "cleanupsMap s'' (default_nodeId nodeId) = Some f"
    using assms(1,3,5) s' by (simp add: run_calls_other_keys)
  from first s' entry assms(6) show ?thesis
    by (simp add: refCallback_detach_entry [OF entry] new_invocations_def)
qed

theorem cleanup_failure_keeps_entry_witness:
  "cleanupsMap (run_calls [Call fragile_effect (Some ''nodeA'') (Some ''x'')] (new_tracker []))
       (default_nodeId (Some ''x'')) = Some failing_cleanup \<and>
   fst (failing_cleanup
         (world (run_calls [Call fragile_effect (Some ''nodeA'') (Some ''x'')] (new_tracker []))))
     = Some ''cleanup failed'' \<and>
   no_call_under (default_nodeId (Some ''x'')) [Call log_effect (Some ''nodeB'') (Some ''y'')] \<and>
   fst (refCallback fragile_effect None (Some ''x'')
         (run_calls [Call fragile_effect (Some ''nodeA'') (Some ''x'')] (new_tracker [])))
     = Some ''cleanup failed'' \<and>
   world (run_calls [Call fragile_effect (Some ''nodeA'') (Some ''x''),
                     Call fragile_effect None (Some ''x'')] (new_tracker []))
     = [''cleanup:tried''] \<and>
   cleanupsMap (run_calls [Call fragile_effect (Some ''nodeA'') (Some ''x''),
                     Call fragile_effect None (Some ''x''),
                     Call log_effect (Some ''nodeB'') (Some ''y'')] (new_tracker [])) ''x''
     = Some failing_cleanup \<and>
   fst (refCallback fragile_effect None (Some ''x'')
         (run_calls [Call fragile_effect (Some ''nodeA'') (Some ''x''),
                     Call fragile_effect None (Some ''x''),
                     Call log_effect (Some ''nodeB'') (Some ''y'')] (new_tracker [])))
     = Some ''cleanup failed'' \<and>
   world (run_calls [Call fragile_effect (Some ''nodeA'') (Some ''x''),
                     Call fragile_effect None (Some ''x''),
                     Call log_effect (Some ''nodeB'') (Some ''y''),
                     Call fragile_effect None (Some ''x'')] (new_tracker []))
     = [''cleanup:tried'', ''effect:nodeB'', ''cleanup:tried''] \<and>
   new_invocations
       (run_calls [Call fragile_effect (Some ''nodeA'') (Some ''x''),
                     Call fragile_effect None (Some ''x''),
                     Call log_effect (Some ''nodeB'') (Some ''y'')] (new_tracker []))
       (run_calls [Call fragile_effect (Some ''nodeA'') (Some ''x''),
                     Call fragile_effect None (Some ''x''),
                     Call log_effect (Some ''nodeB'') (Some ''y''),
                     Call fragile_effect None (Some ''x'')] (new_tracker []))
     = [CleanupCall failing_cleanup]"
proof -
  let ?init = "new_tracker [] :: (string, string list, string) tracker"
  let ?s = "run_calls [Call fragile_effect (Some ''nodeA'') (Some ''x'')] ?init"
  let ?cs = "[Call log_effect (Some ''nodeB'') (Some ''y'')]"
  let ?t = "snd (refCallback fragile_effect None (Some ''x'') ?s)"
  let ?u = "run_calls ?cs ?t"
  have h1: "cleanupsMap ?s (default_nodeId (Some ''x'')) = Some failing_cleanup"
    by (simp add: example_defs)
  have h2: "fst (failing_cleanup (world ?s)) = Some ''cleanup failed''"
    by (simp add: failing_cleanup_def)
  have h3: "no_call_under (default_nodeId (Some ''x'')) ?cs"
    by (simp add: no_call_under_def default_nodeId_def)
  have w1: "snd (failing_cleanup (world ?s)) = [''cleanup:tried'']"
    by (simp add: example_defs failing_cleanup_def)
  note inst = cleanup_failure_keeps_entry
    [where s = ?s and nodeId = "Some ''x''" and f = failing_cleanup and e = "''cleanup failed''"
       and cs = ?cs and effect = fragile_effect and effect' = fragile_effect,
     OF h1 h2 h3 refl refl refl]
  from inst have a: "fst (refCallback fragile_effect None (Some ''x'') ?s) = Some ''cleanup failed''"
    and b: "world ?t = snd (failing_cleanup (world ?s))"
    and c: "cleanupsMap ?u (default_nodeId (Some ''x'')) = Some failing_cleanup"
    and d: "fst (refCallback fragile_effect None (Some ''x'') ?u) = fst (failing_cleanup (world ?u))"
    and e: "world (snd (refCallback fragile_effect None (Some ''x'') ?u))
              = snd (failing_cleanup (world ?u))"
    and f: "new_invocations ?u (snd (refCallback fragile_effect None (Some ''x'') ?u))
              = [CleanupCall failing_cleanup]"
    by blast+
  have wu: "world ?u = world ?t @ [''effect:nodeB'']"
    by (simp add: invoke_def refCallback_def Let_def log_effect_def)
  from b w1 wu have wu': "world ?u = [''cleanup:tried'', ''effect:nodeB'']" by simp
  have d': "fst (refCallback fragile_effect None (Some ''x'') ?u) = Some ''cleanup failed''"
    using d by (simp add: failing_cleanup_def)
  have e': "world (snd (refCallback fragile_effect None (Some ''x'') ?u))
              = [''cleanup:tried'', ''effect:nodeB'', ''cleanup:tried'']"
    using e wu' by (simp add: failing_cleanup_def)
  have c': "cleanupsMap ?u ''x'' = Some failing_cleanup"
    using c by (simp add: default_nodeId_def)
  from h1 h2 h3 a b w1 c' d' e' f show ?thesis
    by (simp add: invoke_def)
qed

subsection \<open>An attach whose effect returns nothing\<close>

text \<open>
  Claim C8. With a cleanup registered under an identifier, an attach under it whose
  effect returns no function returns normally, invokes the effect only and leaves the
  map as it was, the older entry in place. After any calls under other identifiers, the
  next detach under the identifier runs that older cleanup: its outcome and the world
  it leaves are those of the cleanup, which is the one function it invokes, and the
  entry goes unless the cleanup throws.
\<close>

theorem void_reattach_keeps_older_cleanup:
  assumes "cleanupsMap s (default_nodeId nodeId) = Some f"
    and "fst (effect n (world s)) = Returned None"
    and "no_call_under (default_nodeId nodeId) cs"
    and "s' = snd (refCallback effect (Some n) nodeId s)"
    and "s'' = run_calls cs s'"
    and "detached = refCallback effect' None nodeId s''"
  shows "fst (refCallback effect (Some n) nodeId s) = None \<and>
         new_invocations s s' = [EffectCall n] \<and>
         world s' = snd (effect n (world s)) \<and>
         cleanupsMap s' = cleanupsMap s \<and>
         cleanupsMap s'' (default_nodeId nodeId) = Some f \<and>
         fst detached = fst (f (world s'')) \<and>
         world (snd detached) = snd (f (world s'')) \<and>
         new_invocations s'' (snd detached) = [CleanupCall f] \<and>
         cleanupsMap (snd detached) =
           (if fst (f (world s'')) = None then (cleanupsMap s'')(default_nodeId nodeId := None)
            else cleanupsMap s'')"
proof -
  obtain w where w: "effect n (world s) = (Returned None, w)"
    using assms(2) by (cases "effect n (world s)") simp
  have attach: "refCallback effect (Some n) nodeId s =
      (None, s\<lparr>world := w, invoked := invoked s @ [EffectCall n]\<rparr>)"
    using w by (rule refCallback_attach_void)
  then have s': "s' = s\<lparr>world := w, invoked := invoked s @ [EffectCall n]\<rparr>"
    using assms(4) by simp
  have entry: "cleanupsMap s'' (default_nodeId nodeId) = Some f"
    using assms(1,3,5) s' by (simp add: run_calls_other_keys)
  from attach s' w entry assms(6) show ?thesis
    by (simp add: refCallback_detach_entry [OF entry] new_invocations_def)
qed

theorem void_reattach_keeps_older_cleanup_witness:
  "cleanupsMap (run_calls [Call picky_effect (Some ''nodeA'') (Some ''x'')] (new_tracker []))
       (default_nodeId (Some ''x'')) = Some (log_cleanup ''nodeA'') \<and>
   fst (picky_effect ''nodeB''
         (world (run_calls [Call picky_effect (Some ''nodeA'') (Some ''x'')] (new_tracker []))))
     = Returned None \<and>
   no_call_under (default_nodeId (Some ''x'')) [Call log_effect (Some ''nodeC'') (Some ''y'')] \<and>
   cleanupsMap
       (run_calls [Call picky_effect (Some ''nodeA'') (Some ''x''),
                   Call picky_effect (Some ''nodeB'') (Some ''x'')] (new_tracker [])) ''x''
     = Some (log_cleanup ''nodeA'') \<and>
   fst (refCallback picky_effect None (Some ''x'')
       (run_calls [Call picky_effect (Some ''nodeA'') (Some ''x''),
                   Call picky_effect (Some ''nodeB'') (Some ''x''),
                   Call log_effect (Some ''nodeC'') (Some ''y'')] (new_tracker [])))
     = None \<and>
   world
       (run_calls [Call picky_effect (Some ''nodeA'') (Some ''x''),
                   Call picky_effect (Some ''nodeB'') (Some ''x''),
                   Call log_effect (Some ''nodeC'') (Some ''y''),
                   Call picky_effect None (Some ''x'')] (new_tracker []))
     = [''effect:nodeC'', ''cleanup:nodeA''] \<and>
   new_invocations
       (run_calls [Call picky_effect (Some ''nodeA'') (Some ''x''),
                   Call picky_effect (Some ''nodeB'') (Some ''x''),
                   Call log_effect (Some ''nodeC'') (Some ''y'')] (new_tracker []))
       (run_calls [Call picky_effect (Some ''nodeA'') (Some ''x''),
                   Call picky_effect (Some ''nodeB'') (Some ''x''),
                   Call log_effect (Some ''nodeC'') (Some ''y''),
                   Call picky_effect None (Some ''x'')] (new_tracker []))
     = [CleanupCall (log_cleanup ''nodeA'')]"
proof -
  let ?init = "new_tracker [] :: (string, string list, string) tracker"
  let ?s = "run_calls [Call picky_effect (Some ''nodeA'') (Some ''x'')] ?init"
  let ?cs = "[Call log_effect (Some ''nodeC'') (Some ''y'')]"
  let ?t = "snd (refCallback picky_effect (Some ''nodeB'') (Some ''x'') ?s)"
  let ?u = "run_calls ?cs ?t"
  have h1: "cleanupsMap ?s (default_nodeId (Some ''x'')) = Some (log_cleanup ''nodeA'')"
    by (simp add: example_defs)
  have h2: "fst (picky_effect ''nodeB'' (world ?s)) = Returned None"
    by (simp add: picky_effect_def)
  have h3: "no_call_under (default_nodeId (Some ''x'')) ?cs"
    by (simp add: no_call_under_def default_nodeId_def)
  note inst = void_reattach_keeps_older_cleanup
    [where s = ?s and nodeId = "Some ''x''" and f = "log_cleanup ''nodeA''" and n = "''nodeB''"
       and cs = ?cs and effect = picky_effect and effect' = picky_effect,
     OF h1 h2 h3 refl refl refl]
  from inst have a: "cleanupsMap ?t = cleanupsMap ?s"
    and b: "world ?t = snd (picky_effect ''nodeB'' (world ?s))"
    and d: "fst (refCallback picky_effect None (Some ''x'') ?u)
              = fst (log_cleanup ''nodeA'' (world ?u))"
    and e: "world (snd (refCallback picky_effect None (Some ''x'') ?u))
              = snd (log_cleanup ''nodeA'' (world ?u))"
    and f: "new_invocations ?u (snd (refCallback picky_effect None (Some ''x'') ?u))
              = [CleanupCall (log_cleanup ''nodeA'')]"
    by blast+
  have ws: "world ?s = []"
    by (simp add: example_defs)
  have wu: "world ?u = world ?t @ [''effect:nodeC'']"
    by (simp add: invoke_def refCallback_def Let_def log_effect_def)
  from b ws wu have wu': "world ?u = [''effect:nodeC'']"
    by (simp add: picky_effect_def)
  have a': "cleanupsMap ?t ''x'' = Some (log_cleanup ''nodeA'')"
    using a h1 by (simp add: default_nodeId_def)
  have d': "fst (refCallback picky_effect None (Some ''x'') ?u) = None"
    using d by (simp add: log_cleanup_def)
  have e': "world (snd (refCallback picky_effect None (Some ''x'') ?u))
              = [''effect:nodeC'', ''cleanup:nodeA'']"
    using e wu' by (simp add: log_cleanup_def)
  from h1 h2 h3 a' d' e' f show ?thesis
    by (simp add: invoke_def)
qed

text \<open>
  Claim C7. When the effect throws \<open>e\<close> at an attach, or the stored cleanup throws
  \<open>e\<close> at a detach, the call ends with the same exception \<open>e\<close>, and it has invoked
  exactly one caller-supplied function: nothing is retried.
\<close>

theorem exceptions_propagate_unchanged:
  assumes "(node = Some n \<and> fst (effect n (world s)) = Threw e) \<or>
           (node = None \<and> cleanupsMap s (default_nodeId nodeId) = Some f \<and>
            fst (f (world s)) = Some e)"
  shows "fst (refCallback effect node nodeId s) = Some e \<and>
         length (new_invocations s (snd (refCallback effect node nodeId s))) = 1"
  using assms
proof (elim disjE conjE)
  assume "node = Some n" and "fst (effect n (world s)) = Threw e"
  then show ?thesis
    by (cases "effect n (world s)") (simp add: refCallback_attach_threw new_invocations_def)
next
  assume "node = None" and "cleanupsMap s (default_nodeId nodeId) = Some f"
    and "fst (f (world s)) = Some e"
  then show ?thesis
    by (cases "f (world s)") (simp add: refCallback_detach_threw new_invocations_def)
qed

theorem exceptions_propagate_unchanged_witness:
  "fst (failing_effect ''nodeA'' (world (new_tracker [] :: (string, string list, string) tracker)))
     = Threw ''effect failed'' \<and>
   fst (refCallback failing_effect (Some ''nodeA'') None (new_tracker [])) = Some ''effect failed'' \<and>
   cleanupsMap (run_calls [Call fragile_effect (Some ''nodeA'') None] (new_tracker []))
       (default_nodeId None) = Some failing_cleanup \<and>
   fst (failing_cleanup (world (run_calls [Call fragile_effect (Some ''nodeA'') None] (new_tracker []))))
     = Some ''cleanup failed'' \<and>
   fst (refCallback fragile_effect None None
         (run_calls [Call fragile_effect (Some ''nodeA'') None] (new_tracker [])))
     = Some ''cleanup failed''"
proof -
  let ?init = "new_tracker [] :: (string, string list, string) tracker"
  let ?s = "run_calls [Call fragile_effect (Some ''nodeA'') None] ?init"
  have h1: "fst (failing_effect ''nodeA'' (world ?init)) = Threw ''effect failed''"
    by (simp add: failing_effect_def)
  have h2: "cleanupsMap ?s (default_nodeId None) = Some failing_cleanup"
    by (simp add: example_defs)
  have h3: "fst (failing_cleanup (world ?s)) = Some ''cleanup failed''"
    by (simp add: failing_cleanup_def)
  from exceptions_propagate_unchanged
    [where node = "Some ''nodeA''" and n = "''nodeA''" and effect = failing_effect and s = ?init
       and e = "''effect failed''" and nodeId = None]
    exceptions_propagate_unchanged
    [where node = None and effect = fragile_effect and s = ?s and f = failing_cleanup
       and e = "''cleanup failed''" and nodeId = None]
    h1 h2 h3
  show ?thesis by simp
qed

subsection \<open>Single-node mode\<close>

text \<open>
  Claim C5. A call without an identifier is the call with the identifier \<open>single\<close>.
  In single-node mode, when the effect returns a cleanup for \<open>nodeA\<close>, the attach
  stores it under \<open>single\<close>, and the attach followed by the detach invokes the effect
  on \<open>nodeA\<close> and then exactly that cleanup.
\<close>

theorem omitted_identifier_is_single:
  "refCallback effect node None s = refCallback effect node (Some ''single'') s \<and>
   (fst (effect nodeA (world s)) = Returned (Some f) \<longrightarrow>
      cleanupsMap (snd (refCallback effect (Some nodeA) None s)) ''single'' = Some f \<and>
      new_invocations s
        (snd (refCallback effect' None None (snd (refCallback effect (Some nodeA) None s))))
        = [EffectCall nodeA, CleanupCall f])"
proof (intro conjI impI)
  show "refCallback effect node None s = refCallback effect node (Some ''single'') s"
    by (simp add: refCallback_def default_nodeId_def)
next
  assume a: "fst (effect nodeA (world s)) = Returned (Some f)"
  then obtain w where w: "effect nodeA (world s) = (Returned (Some f), w)"
    by (cases "effect nodeA (world s)") simp
  show "cleanupsMap (snd (refCallback effect (Some nodeA) None s)) ''single'' = Some f"
    using w by (simp add: refCallback_attach_cleanup default_nodeId_def)
  show "new_invocations s
        (snd (refCallback effect' None None (snd (refCallback effect (Some nodeA) None s))))
        = [EffectCall nodeA, CleanupCall f]"
    using w
    by (cases "f w")
       (simp add: refCallback_attach_cleanup refCallback_def Let_def default_nodeId_def
          new_invocations_def split: option.splits)
qed

theorem omitted_identifier_is_single_witness:
  "fst (log_effect ''nodeA'' (world (new_tracker [] :: (string, string list, string) tracker)))
     = Returned (Some (log_cleanup ''nodeA'')) \<and>
   new_invocations (new_tracker [])
     (snd (refCallback log_effect None None
        (snd (refCallback log_effect (Some ''nodeA'') None (new_tracker [])))))
     = [EffectCall ''nodeA'', CleanupCall (log_cleanup ''nodeA'')] \<and>
   world (snd (refCallback log_effect None None
        (snd (refCallback log_effect (Some ''nodeA'') None (new_tracker [])))))
     = [''effect:nodeA'', ''cleanup:nodeA'']"
proof -
  let ?init = "new_tracker [] :: (string, string list, string) tracker"
  have h: "fst (log_effect ''nodeA'' (world ?init)) = Returned (Some (log_cleanup ''nodeA''))"
    by (simp add: log_effect_def)
  have w: "world (snd (refCallback log_effect None None
        (snd (refCallback log_effect (Some ''nodeA'') None ?init))))
     = [''effect:nodeA'', ''cleanup:nodeA'']"
    by (simp add: example_defs log_cleanup_def)
  from omitted_identifier_is_single
    [where effect = log_effect and effect' = log_effect and nodeA = "''nodeA''" and s = ?init
       and f = "log_cleanup ''nodeA''"] h
  have "new_invocations ?init
     (snd (refCallback log_effect None None
        (snd (refCallback log_effect (Some ''nodeA'') None ?init))))
     = [EffectCall ''nodeA'', CleanupCall (log_cleanup ''nodeA'')]"
    by blast
  with h w show ?thesis by blast
qed

lemma new_invocations_run_calls_Cons:
  "new_invocations s (run_calls (c # cs) s) =
     new_invocations s (snd (invoke c s)) @ new_invocations (snd (invoke c s)) (run_calls cs (snd (invoke c s)))"
proof -
  obtain e1 where e1: "invoked (snd (invoke c s)) = invoked s @ e1"
    using refCallback_invoked_grows [of "call_effect c" "call_node c" "call_id c" s]
    by (auto simp: invoke_def)
  obtain e2 where e2: "invoked (run_calls cs (snd (invoke c s))) = invoked (snd (invoke c s)) @ e2"
    using run_calls_invoked_grows by blast
  show ?thesis by (simp add: new_invocations_def e1 e2)
qed

subsection \<open>Attach followed by the matching detach\<close>

text \<open>The invocations of two stretches of calls, one after the other.\<close>

lemma new_invocations_append:
  assumes "invoked t = invoked s @ a" and "invoked u = invoked t @ b"
  shows "new_invocations s u = new_invocations s t @ new_invocations t u"
  using assms by (simp add: new_invocations_def)

text \<open>
  Calls under other identifiers than \<open>K\<close> invoke a function only if it is registered
  under one of those identifiers or an effect hands it out on the way.
\<close>

lemma invoke_other_key_never_invokes:
  assumes "default_nodeId (call_id c) \<noteq> K"
    and "\<forall>k'. k' \<noteq> K \<longrightarrow> cleanupsMap s k' \<noteq> Some f"
    and "cleanup_returned (step_of c s) \<noteq> Some f"
  shows "(\<forall>k'. k' \<noteq> K \<longrightarrow> cleanupsMap (snd (invoke c s)) k' \<noteq> Some f) \<and>
         CleanupCall f \<notin> set (new_invocations s (snd (invoke c s)))"
proof (cases "call_node c")
  case None
  show ?thesis
  proof (cases "cleanupsMap s (default_nodeId (call_id c))")
    case None
    with \<open>call_node c = None\<close> assms(2) show ?thesis
      by (simp add: invoke_def refCallback_detach_absent new_invocations_def)
  next
    case (Some g)
    then have "g \<noteq> f" using assms(1,2) by auto
    with Some \<open>call_node c = None\<close> assms(2) show ?thesis
      by (simp add: invoke_def refCallback_detach_entry new_invocations_def)
  qed
next
  case (Some n)
  with assms(2,3) show ?thesis
    by (cases "call_effect c n (world s)")
       (auto simp: invoke_def refCallback_def Let_def new_invocations_def
          cleanup_returned_def step_of_def split: option.splits effect_return.splits)
qed

lemma run_calls_other_keys_never_invoke:
  "no_call_under K cs \<Longrightarrow>
   \<forall>k'. k' \<noteq> K \<longrightarrow> cleanupsMap s k' \<noteq> Some f \<Longrightarrow>
   list_all (\<lambda>st. cleanup_returned st \<noteq> Some f) (history cs s) \<Longrightarrow>
   CleanupCall f \<notin> set (new_invocations s (run_calls cs s))"
proof (induction cs arbitrary: s)
  case Nil
  show ?case by (simp add: new_invocations_def)
next
  case (Cons c cs)
  from Cons.prems have key: "default_nodeId (call_id c) \<noteq> K"
    and keys: "no_call_under K cs"
    and ret: "cleanup_returned (step_of c s) \<noteq> Some f"
    and rest: "list_all (\<lambda>st. cleanup_returned st \<noteq> Some f) (history cs (snd (invoke c s)))"
    by (simp_all add: no_call_under_def)
  from invoke_other_key_never_invokes [OF key Cons.prems(2) ret]
  have a: "\<forall>k'. k' \<noteq> K \<longrightarrow> cleanupsMap (snd (invoke c s)) k' \<noteq> Some f"
    and b: "CleanupCall f \<notin> set (new_invocations s (snd (invoke c s)))"
    by simp_all
  from Cons.IH [OF keys a rest] b new_invocations_run_calls_Cons [of s c cs] show ?case
    by simp
qed

text \<open>
  Claim C2, as stated, at a concrete input: an effect whose cleanup is one function
  that throws; \<open>attach(nodeA, y)\<close>, then \<open>attach(nodeB, x)\<close>, \<open>attach(null, y)\<close>
  and \<open>attach(null, x)\<close>, with no call under \<open>x\<close> between the attach and the detach
  under \<open>x\<close>. The effect returned the cleanup at the attach under \<open>x\<close>; from that
  attach on it is invoked twice, not once, and after the detach under \<open>x\<close> the entry
  under \<open>x\<close> is still in the map: the exception skipped \<open>delete\<close>.
\<close>

theorem failing_cleanup_entry_stays_counterexample:
  "cleanup_returned
       (step_of (Call fragile_effect (Some ''nodeB'') (Some ''x''))
          (run_calls [Call fragile_effect (Some ''nodeA'') (Some ''y'')] (new_tracker [])))
     = Some failing_cleanup \<and>
   no_call_under ''x'' [Call fragile_effect None (Some ''y'')] \<and>
   new_invocations
       (run_calls [Call fragile_effect (Some ''nodeA'') (Some ''y'')] (new_tracker []))
       (run_calls [Call fragile_effect (Some ''nodeA'') (Some ''y''),
                   Call fragile_effect (Some ''nodeB'') (Some ''x''),
                   Call fragile_effect None (Some ''y''),
                   Call fragile_effect None (Some ''x'')] (new_tracker []))
     = [EffectCall ''nodeB'', CleanupCall failing_cleanup, CleanupCall failing_cleanup] \<and>
   cleanupsMap
       (run_calls [Call fragile_effect (Some ''nodeA'') (Some ''y''),
                   Call fragile_effect (Some ''nodeB'') (Some ''x''),
                   Call fragile_effect None (Some ''y''),
                   Call fragile_effect None (Some ''x'')] (new_tracker [])) ''x''
     = Some failing_cleanup"
  by (simp add: example_defs cleanup_returned_def step_of_def new_invocations_def
        failing_cleanup_def no_call_under_def)

text \<open>
  Each way alone. With a cleanup that throws and nothing else registered, the cleanup is
  invoked once and the entry stays.
\<close>

lemma failing_cleanup_alone_entry_stays:
  "new_invocations (new_tracker [])
       (run_calls [Call fragile_effect (Some ''nodeA'') (Some ''x''),
                   Call fragile_effect None (Some ''x'')] (new_tracker []))
     = [EffectCall ''nodeA'', CleanupCall failing_cleanup] \<and>
   cleanupsMap
       (run_calls [Call fragile_effect (Some ''nodeA'') (Some ''x''),
                   Call fragile_effect None (Some ''x'')] (new_tracker [])) ''x''
     = Some failing_cleanup"
  by (simp add: example_defs new_invocations_def failing_cleanup_def)

text \<open>
  With a cleanup that returns, registered under \<open>y\<close> too, the entry under \<open>x\<close> is
  removed, and the detach under \<open>y\<close> in between has invoked the function as well.
\<close>

lemma shared_cleanup_invoked_twice:
  "new_invocations
       (run_calls [Call shared_effect (Some ''nodeA'') (Some ''y'')] (new_tracker []))
       (run_calls [Call shared_effect (Some ''nodeA'') (Some ''y''),
                   Call shared_effect (Some ''nodeB'') (Some ''x''),
                   Call shared_effect None (Some ''y''),
                   Call shared_effect None (Some ''x'')] (new_tracker []))
     = [EffectCall ''nodeB'', CleanupCall shared_cleanup, CleanupCall shared_cleanup] \<and>
   cleanupsMap
       (run_calls [Call shared_effect (Some ''nodeA'') (Some ''y''),
                   Call shared_effect (Some ''nodeB'') (Some ''x''),
                   Call shared_effect None (Some ''y''),
                   Call shared_effect None (Some ''x'')] (new_tracker [])) ''x''
     = None"
  by (simp add: example_defs new_invocations_def shared_cleanup_def)

text \<open>
  With the function handed out again by an attach under \<open>y\<close> in between, the detach
  under \<open>y\<close> invokes it before the detach under \<open>x\<close> does.
\<close>

lemma cleanup_handed_out_again_invoked_twice:
  "new_invocations (new_tracker [])
       (run_calls [Call shared_effect (Some ''nodeB'') (Some ''x''),
                   Call shared_effect (Some ''nodeA'') (Some ''y''),
                   Call shared_effect None (Some ''y''),
                   Call shared_effect None (Some ''x'')] (new_tracker []))
     = [EffectCall ''nodeB'', EffectCall ''nodeA'',
        CleanupCall shared_cleanup, CleanupCall shared_cleanup]"
  by (simp add: example_defs new_invocations_def shared_cleanup_def)

text \<open>
  Claim C2, amended. Take \<open>attach(node, id)\<close> at which the effect returns a cleanup,
  then any calls under other identifiers, then \<open>attach(null, id)\<close>. The attach invokes
  the effect only. The detach finds the cleanup as the entry under \<open>id\<close> and runs it:
  the cleanup is the one function the detach invokes, and the outcome of the detach and
  the world it leaves are the cleanup's. From the attach to the end of the detach the
  cleanup is invoked exactly once, provided the same function is not registered under
  another identifier and no effect in between returns it. When the cleanup returns
  without throwing, the map after the detach is the map before it without the entry
  under \<open>id\<close>.
\<close>

theorem matching_detach_runs_cleanup_once:
  assumes "fst (effect n (world s)) = Returned (Some f)"
    and "no_call_under (default_nodeId nodeId) cs"
    and "s1 = snd (refCallback effect (Some n) nodeId s)"
    and "s2 = run_calls cs s1"
    and "s3 = snd (refCallback effect' None nodeId s2)"
  shows "new_invocations s s1 = [EffectCall n] \<and>
         cleanupsMap s2 (default_nodeId nodeId) = Some f \<and>
         new_invocations s2 s3 = [CleanupCall f] \<and>
         new_invocations s s3 = EffectCall n # new_invocations s1 s2 @ [CleanupCall f] \<and>
         ((\<forall>k'. k' \<noteq> default_nodeId nodeId \<longrightarrow> cleanupsMap s k' \<noteq> Some f) \<and>
          list_all (\<lambda>st. cleanup_returned st \<noteq> Some f) (history cs s1) \<longrightarrow>
            count_list (new_invocations s s3) (CleanupCall f) = 1) \<and>
         fst (refCallback effect' None nodeId s2) = fst (f (world s2)) \<and>
         world s3 = snd (f (world s2)) \<and>
         (fst (f (world s2)) = None \<longrightarrow>
            cleanupsMap s3 = (cleanupsMap s2)(default_nodeId nodeId := None))"
proof -
  let ?k = "default_nodeId nodeId"
  obtain w where w: "effect n (world s) = (Returned (Some f), w)"
    using assms(1) by (cases "effect n (world s)") simp
  have s1: "s1 = s\<lparr>cleanupsMap := (cleanupsMap s)(?k \<mapsto> f), world := w,
               invoked := invoked s @ [EffectCall n]\<rparr>"
    using assms(3) w by (simp add: refCallback_attach_cleanup)
  have entry: "cleanupsMap s2 ?k = Some f"
    using assms(2,4) s1 by (simp add: run_calls_other_keys)
  have detach: "refCallback effect' None nodeId s2 =
     (fst (f (world s2)),
      s2\<lparr>cleanupsMap :=
           (if fst (f (world s2)) = None then (cleanupsMap s2)(?k := None) else cleanupsMap s2),
         world := snd (f (world s2)),
         invoked := invoked s2 @ [CleanupCall f]\<rparr>)"
    using entry by (rule refCallback_detach_entry)
  have first: "new_invocations s s1 = [EffectCall n]"
    using s1 by (simp add: new_invocations_def)
  have last: "new_invocations s2 s3 = [CleanupCall f]"
    using detach assms(5) by (simp add: new_invocations_def)
  obtain b where b: "invoked s2 = invoked s1 @ b"
    using run_calls_invoked_grows [of cs s1] assms(4) by auto
  have i1: "invoked s1 = invoked s @ [EffectCall n]"
    using s1 by simp
  have i3: "invoked s3 = invoked s2 @ [CleanupCall f]"
    using detach assms(5) by simp
  have mid: "new_invocations s s2 = new_invocations s s1 @ new_invocations s1 s2"
    using i1 b by (rule new_invocations_append)
  have "invoked s2 = invoked s @ ([EffectCall n] @ b)"
    using i1 b by simp
  then have "new_invocations s s3 = new_invocations s s2 @ new_invocations s2 s3"
    using i3 by (rule new_invocations_append)
  with mid first last
  have window: "new_invocations s s3 = EffectCall n # new_invocations s1 s2 @ [CleanupCall f]"
    by simp
  have once: "count_list (new_invocations s s3) (CleanupCall f) = 1"
    if others: "\<forall>k'. k' \<noteq> ?k \<longrightarrow> cleanupsMap s k' \<noteq> Some f"
      and fresh: "list_all (\<lambda>st. cleanup_returned st \<noteq> Some f) (history cs s1)"
  proof -
    have "\<forall>k'. k' \<noteq> ?k \<longrightarrow> cleanupsMap s1 k' \<noteq> Some f"
      using others s1 by simp
    from run_calls_other_keys_never_invoke [OF assms(2) this fresh]
    have "CleanupCall f \<notin> set (new_invocations s1 s2)"
      using assms(4) by simp
    with window show ?thesis by simp
  qed
  from first entry last window once detach assms(5) show ?thesis
    by simp
qed

theorem matching_detach_runs_cleanup_once_witness:
  "fst (log_effect ''nodeA'' (world (new_tracker [] :: (string, string list, string) tracker)))
     = Returned (Some (log_cleanup ''nodeA'')) \<and>
   no_call_under (default_nodeId (Some ''x'')) [Call log_effect (Some ''nodeB'') (Some ''y'')] \<and>
   list_all (\<lambda>st. cleanup_returned st \<noteq> Some (log_cleanup ''nodeA''))
     (history [Call log_effect (Some ''nodeB'') (Some ''y'')]
        (run_calls [Call log_effect (Some ''nodeA'') (Some ''x'')] (new_tracker []))) \<and>
   new_invocations (new_tracker [])
       (run_calls [Call log_effect (Some ''nodeA'') (Some ''x''),
                   Call log_effect (Some ''nodeB'') (Some ''y''),
                   Call log_effect None (Some ''x'')] (new_tracker []))
     = [EffectCall ''nodeA'', EffectCall ''nodeB'', CleanupCall (log_cleanup ''nodeA'')] \<and>
   count_list
       (new_invocations (new_tracker [])
          (run_calls [Call log_effect (Some ''nodeA'') (Some ''x''),
                      Call log_effect (Some ''nodeB'') (Some ''y''),
                      Call log_effect None (Some ''x'')] (new_tracker [])))
       (CleanupCall (log_cleanup ''nodeA'')) = 1 \<and>
   fst (refCallback log_effect None (Some ''x'')
          (run_calls [Call log_effect (Some ''nodeA'') (Some ''x''),
                      Call log_effect (Some ''nodeB'') (Some ''y'')] (new_tracker []))) = None \<and>
   world
       (run_calls [Call log_effect (Some ''nodeA'') (Some ''x''),
                   Call log_effect (Some ''nodeB'') (Some ''y''),
                   Call log_effect None (Some ''x'')] (new_tracker []))
     = [''effect:nodeA'', ''effect:nodeB'', ''cleanup:nodeA''] \<and>
   cleanupsMap
       (run_calls [Call log_effect (Some ''nodeA'') (Some ''x''),
                   Call log_effect (Some ''nodeB'') (Some ''y''),
                   Call log_effect None (Some ''x'')] (new_tracker [])) ''x''
     = None \<and>
   cleanupsMap
       (run_calls [Call log_effect (Some ''nodeA'') (Some ''x''),
                   Call log_effect (Some ''nodeB'') (Some ''y''),
                   Call log_effect None (Some ''x'')] (new_tracker [])) ''y''
     = Some (log_cleanup ''nodeB'')"
proof -
  let ?init = "new_tracker [] :: (string, string list, string) tracker"
  let ?cs = "[Call log_effect (Some ''nodeB'') (Some ''y'')]"
  let ?a = "snd (refCallback log_effect (Some ''nodeA'') (Some ''x'') ?init)"
  let ?b = "run_calls ?cs ?a"
  let ?c = "snd (refCallback log_effect None (Some ''x'') ?b)"
  have h1: "fst (log_effect ''nodeA'' (world ?init)) = Returned (Some (log_cleanup ''nodeA''))"
    by (simp add: log_effect_def)
  have h2: "no_call_under (default_nodeId (Some ''x'')) ?cs"
    by (simp add: no_call_under_def default_nodeId_def)
  have h3: "\<forall>k'. k' \<noteq> default_nodeId (Some ''x'') \<longrightarrow>
              cleanupsMap ?init k' \<noteq> Some (log_cleanup ''nodeA'')"
    by (simp add: new_tracker_def)
  have h4: "list_all (\<lambda>st. cleanup_returned st \<noteq> Some (log_cleanup ''nodeA'')) (history ?cs ?a)"
    by (simp add: step_of_def cleanup_returned_def log_effect_def log_cleanup_def fun_eq_iff)
  have wb: "world ?b = [''effect:nodeA'', ''effect:nodeB'']"
    by (simp add: example_defs)
  have mb: "cleanupsMap ?b ''y'' = Some (log_cleanup ''nodeB'')"
    by (simp add: example_defs)
  have ib: "new_invocations ?a ?b = [EffectCall ''nodeB'']"
    by (simp add: example_defs new_invocations_def)
  note inst = matching_detach_runs_cleanup_once
    [where effect = log_effect and effect' = log_effect and n = "''nodeA''" and s = ?init
       and f = "log_cleanup ''nodeA''" and nodeId = "Some ''x''" and cs = ?cs,
     OF h1 h2 refl refl refl]
  from inst have window: "new_invocations ?init ?c
        = EffectCall ''nodeA'' # new_invocations ?a ?b @ [CleanupCall (log_cleanup ''nodeA'')]"
    and res: "fst (refCallback log_effect None (Some ''x'') ?b)
        = fst (log_cleanup ''nodeA'' (world ?b))"
    and wc: "world ?c = snd (log_cleanup ''nodeA'' (world ?b))"
    and rm: "fst (log_cleanup ''nodeA'' (world ?b)) = None \<longrightarrow>
        cleanupsMap ?c = (cleanupsMap ?b)(default_nodeId (Some ''x'') := None)"
    by blast+
  from inst h3 h4
  have once: "count_list (new_invocations ?init ?c) (CleanupCall (log_cleanup ''nodeA'')) = 1"
    by blast
  have ok: "fst (log_cleanup ''nodeA'' (world ?b)) = None"
    by (simp add: log_cleanup_def)
  from rm ok have map: "cleanupsMap ?c = (cleanupsMap ?b)(default_nodeId (Some ''x'') := None)"
    by blast
  have c1: "new_invocations ?init ?c
        = [EffectCall ''nodeA'', EffectCall ''nodeB'', CleanupCall (log_cleanup ''nodeA'')]"
    using window ib by simp
  have c2: "fst (refCallback log_effect None (Some ''x'') ?b) = None"
    using res ok by simp
  have c3: "world ?c = [''effect:nodeA'', ''effect:nodeB'', ''cleanup:nodeA'']"
    using wc wb by (simp add: log_cleanup_def)
  have c4: "cleanupsMap ?c ''x'' = None"
    using map by (simp add: default_nodeId_def)
  have c5: "cleanupsMap ?c ''y'' = Some (log_cleanup ''nodeB'')"
    using map mb by (simp add: default_nodeId_def)
  have run3: "run_calls [Call log_effect (Some ''nodeA'') (Some ''x''),
                   Call log_effect (Some ''nodeB'') (Some ''y''),
                   Call log_effect None (Some ''x'')] ?init = ?c"
    by (simp add: invoke_def)
  have run2: "run_calls [Call log_effect (Some ''nodeA'') (Some ''x''),
                   Call log_effect (Some ''nodeB'') (Some ''y'')] ?init = ?b"
    by (simp add: invoke_def)
  have run1: "run_calls [Call log_effect (Some ''nodeA'') (Some ''x'')] ?init = ?a"
    by (simp add: invoke_def)
  from h1 h2 h4 once c1 c2 c3 c4 c5 show ?thesis
    unfolding run3 run2 run1 by blast
qed

subsection \<open>Attaching over a pending cleanup\<close>

text \<open>A cleanup that a call invokes was in the map before the call.\<close>

lemma invoke_keeps_unregistered:
  assumes "f \<notin> ran (cleanupsMap s)" and "cleanup_returned (step_of c s) \<noteq> Some f"
  shows "f \<notin> ran (cleanupsMap (snd (invoke c s))) \<and>
         CleanupCall f \<notin> set (new_invocations s (snd (invoke c s)))"
proof -
  have absent: "\<And>k. cleanupsMap s k \<noteq> Some f"
    using assms(1) by (auto simp: ran_def)
  show ?thesis
  proof (cases "call_node c")
    case None
    show ?thesis
    proof (cases "cleanupsMap s (default_nodeId (call_id c))")
      case None
      with \<open>call_node c = None\<close> assms(1) show ?thesis
        by (simp add: invoke_def refCallback_detach_absent new_invocations_def)
    next
      case (Some g)
      then have "g \<noteq> f" using absent by auto
      with Some \<open>call_node c = None\<close> absent show ?thesis
        by (cases "g (world s)")
           (auto simp: invoke_def refCallback_def Let_def new_invocations_def ran_def
              split: option.splits)
    qed
  next
    case (Some n)
    with assms(2) absent show ?thesis
      by (cases "call_effect c n (world s)")
         (auto simp: invoke_def refCallback_def Let_def new_invocations_def ran_def
            cleanup_returned_def step_of_def split: option.splits effect_return.splits)
  qed
qed

lemma run_calls_never_invokes:
  "f \<notin> ran (cleanupsMap s) \<Longrightarrow>
   list_all (\<lambda>st. cleanup_returned st \<noteq> Some f) (history cs s) \<Longrightarrow>
   CleanupCall f \<notin> set (new_invocations s (run_calls cs s))"
proof (induction cs arbitrary: s)
  case Nil
  show ?case by (simp add: new_invocations_def)
next
  case (Cons c cs)
  from Cons.prems have ret: "cleanup_returned (step_of c s) \<noteq> Some f"
    and rest: "list_all (\<lambda>st. cleanup_returned st \<noteq> Some f) (history cs (snd (invoke c s)))"
    by simp_all
  from invoke_keeps_unregistered [OF Cons.prems(1) ret]
  have a: "f \<notin> ran (cleanupsMap (snd (invoke c s)))"
    and b: "CleanupCall f \<notin> set (new_invocations s (snd (invoke c s)))"
    by simp_all
  from Cons.IH [OF a rest] b new_invocations_run_calls_Cons [of s c cs] show ?case
    by simp
qed

text \<open>
  Claim C3, as stated, at a concrete input: an effect that returns one function for
  every node; \<open>attach(nodeA, x)\<close>, \<open>attach(nodeB, x)\<close>, \<open>attach(null, x)\<close>. At the
  second attach the function is the cleanup already stored under \<open>x\<close> and the
  effect's return value; the later detach invokes it.
\<close>

theorem same_function_reattach_counterexample:
  "cleanupsMap
       (run_calls [Call shared_effect (Some ''nodeA'') (Some ''x'')] (new_tracker [])) ''x''
     = Some shared_cleanup \<and>
   cleanup_returned
       (step_of (Call shared_effect (Some ''nodeB'') (Some ''x''))
          (run_calls [Call shared_effect (Some ''nodeA'') (Some ''x'')] (new_tracker [])))
     = Some shared_cleanup \<and>
   new_invocations
       (run_calls [Call shared_effect (Some ''nodeA'') (Some ''x''),
                   Call shared_effect (Some ''nodeB'') (Some ''x'')] (new_tracker []))
       (run_calls [Call shared_effect (Some ''nodeA'') (Some ''x''),
                   Call shared_effect (Some ''nodeB'') (Some ''x''),
                   Call shared_effect None (Some ''x'')] (new_tracker []))
     = [CleanupCall shared_cleanup]"
  by (simp add: example_defs cleanup_returned_def step_of_def new_invocations_def
        shared_cleanup_def)

text \<open>
  The other two ways the overwritten function is invoked later. It is also registered
  under another identifier: \<open>nodeA\<close> attached under \<open>x\<close> and under \<open>y\<close>, \<open>nodeB\<close>
  attached over it under \<open>x\<close>, then the detach under \<open>y\<close>.
\<close>

lemma overwritten_cleanup_under_other_identifier:
  "cleanupsMap
       (run_calls [Call log_effect (Some ''nodeA'') (Some ''x''),
                   Call log_effect (Some ''nodeA'') (Some ''y'')] (new_tracker [])) ''x''
     = Some (log_cleanup ''nodeA'') \<and>
   cleanupsMap
       (run_calls [Call log_effect (Some ''nodeA'') (Some ''x''),
                   Call log_effect (Some ''nodeA'') (Some ''y''),
                   Call log_effect (Some ''nodeB'') (Some ''x'')] (new_tracker [])) ''x''
     = Some (log_cleanup ''nodeB'') \<and>
   new_invocations
       (run_calls [Call log_effect (Some ''nodeA'') (Some ''x''),
                   Call log_effect (Some ''nodeA'') (Some ''y''),
                   Call log_effect (Some ''nodeB'') (Some ''x'')] (new_tracker []))
       (run_calls [Call log_effect (Some ''nodeA'') (Some ''x''),
                   Call log_effect (Some ''nodeA'') (Some ''y''),
                   Call log_effect (Some ''nodeB'') (Some ''x''),
                   Call log_effect None (Some ''y'')] (new_tracker []))
     = [CleanupCall (log_cleanup ''nodeA'')]"
  by (simp add: example_defs new_invocations_def log_cleanup_def)

text \<open>
  A later effect hands it out again: \<open>nodeA\<close>, \<open>nodeB\<close> and \<open>nodeA\<close> again attached
  under \<open>x\<close>, then the detach under \<open>x\<close>.
\<close>

lemma overwritten_cleanup_handed_out_again:
  "cleanupsMap
       (run_calls [Call log_effect (Some ''nodeA'') (Some ''x''),
                   Call log_effect (Some ''nodeB'') (Some ''x'')] (new_tracker [])) ''x''
     = Some (log_cleanup ''nodeB'') \<and>
   new_invocations
       (run_calls [Call log_effect (Some ''nodeA'') (Some ''x''),
                   Call log_effect (Some ''nodeB'') (Some ''x'')] (new_tracker []))
       (run_calls [Call log_effect (Some ''nodeA'') (Some ''x''),
                   Call log_effect (Some ''nodeB'') (Some ''x''),
                   Call log_effect (Some ''nodeA'') (Some ''x''),
                   Call log_effect None (Some ''x'')] (new_tracker []))
     = [EffectCall ''nodeA'', CleanupCall (log_cleanup ''nodeA'')]"
  by (simp add: example_defs new_invocations_def log_cleanup_def)

text \<open>
  Claim C3, amended. With \<open>f_old\<close> registered under an identifier, an attach under it
  whose effect returns the function \<open>f_new\<close> returns normally, makes \<open>f_new\<close> the
  entry, invokes the effect only and leaves the world as the effect left it: \<open>f_old\<close>
  has not run. After any calls under other identifiers, the next detach under the
  identifier runs \<open>f_new\<close>: the outcome and the world are those of \<open>f_new\<close>, the one
  function invoked. And from the attach on no call invokes \<open>f_old\<close>, provided
  \<open>f_old\<close> is not the new entry or an entry under another identifier, and is not
  handed out again by the effect of a later attach.
\<close>

theorem reattach_overwrites_without_cleanup:
  assumes "cleanupsMap s (default_nodeId nodeId) = Some f_old"
    and "fst (effect n (world s)) = Returned (Some f_new)"
    and "s1 = snd (refCallback effect (Some n) nodeId s)"
    and "detached = refCallback effect' None nodeId (run_calls ds s1)"
  shows "fst (refCallback effect (Some n) nodeId s) = None \<and>
         cleanupsMap s1 = (cleanupsMap s)(default_nodeId nodeId \<mapsto> f_new) \<and>
         new_invocations s s1 = [EffectCall n] \<and>
         world s1 = snd (effect n (world s)) \<and>
         (no_call_under (default_nodeId nodeId) ds \<longrightarrow>
            fst detached = fst (f_new (world (run_calls ds s1))) \<and>
            world (snd detached) = snd (f_new (world (run_calls ds s1))) \<and>
            new_invocations (run_calls ds s1) (snd detached) = [CleanupCall f_new]) \<and>
         (f_old \<notin> ran (cleanupsMap s1) \<and>
          list_all (\<lambda>st. cleanup_returned st \<noteq> Some f_old) (history cs s1) \<longrightarrow>
            CleanupCall f_old \<notin> set (new_invocations s1 (run_calls cs s1)))"
proof -
  obtain w where w: "effect n (world s) = (Returned (Some f_new), w)"
    using assms(2) by (cases "effect n (world s)") simp
  have attach: "refCallback effect (Some n) nodeId s =
      (None, s\<lparr>cleanupsMap := (cleanupsMap s)(default_nodeId nodeId \<mapsto> f_new),
               world := w, invoked := invoked s @ [EffectCall n]\<rparr>)"
    using w by (rule refCallback_attach_cleanup)
  then have s1: "s1 = s\<lparr>cleanupsMap := (cleanupsMap s)(default_nodeId nodeId \<mapsto> f_new),
               world := w, invoked := invoked s @ [EffectCall n]\<rparr>"
    using assms(3) by simp
  have later: "fst detached = fst (f_new (world (run_calls ds s1))) \<and>
            world (snd detached) = snd (f_new (world (run_calls ds s1))) \<and>
            new_invocations (run_calls ds s1) (snd detached) = [CleanupCall f_new]"
    if "no_call_under (default_nodeId nodeId) ds"
  proof -
    have entry: "cleanupsMap (run_calls ds s1) (default_nodeId nodeId) = Some f_new"
      using that s1 by (simp add: run_calls_other_keys)
    show ?thesis
      using assms(4) by (simp add: refCallback_detach_entry [OF entry] new_invocations_def)
  qed
  from attach s1 w later show ?thesis
    using run_calls_never_invokes [of f_old s1 cs] by (simp add: new_invocations_def)
qed

lemma log_cleanup_inject: "log_cleanup a = log_cleanup b \<longleftrightarrow> a = b"
  by (auto simp: log_cleanup_def fun_eq_iff)

theorem reattach_overwrites_without_cleanup_witness:
  "cleanupsMap (run_calls [Call log_effect (Some ''nodeA'') (Some ''x'')] (new_tracker []))
       (default_nodeId (Some ''x'')) = Some (log_cleanup ''nodeA'') \<and>
   fst (log_effect ''nodeB''
         (world (run_calls [Call log_effect (Some ''nodeA'') (Some ''x'')] (new_tracker []))))
     = Returned (Some (log_cleanup ''nodeB'')) \<and>
   no_call_under (default_nodeId (Some ''x'')) [Call log_effect (Some ''nodeC'') (Some ''y'')] \<and>
   cleanupsMap
       (run_calls [Call log_effect (Some ''nodeA'') (Some ''x''),
                   Call log_effect (Some ''nodeB'') (Some ''x'')] (new_tracker [])) ''x''
     = Some (log_cleanup ''nodeB'') \<and>
   world
       (run_calls [Call log_effect (Some ''nodeA'') (Some ''x''),
                   Call log_effect (Some ''nodeB'') (Some ''x'')] (new_tracker []))
     = [''effect:nodeA'', ''effect:nodeB''] \<and>
   world
       (run_calls [Call log_effect (Some ''nodeA'') (Some ''x''),
                   Call log_effect (Some ''nodeB'') (Some ''x''),
                   Call log_effect (Some ''nodeC'') (Some ''y''),
                   Call log_effect None (Some ''x'')] (new_tracker []))
     = [''effect:nodeA'', ''effect:nodeB'', ''effect:nodeC'', ''cleanup:nodeB''] \<and>
   new_invocations
       (run_calls [Call log_effect (Some ''nodeA'') (Some ''x''),
                   Call log_effect (Some ''nodeB'') (Some ''x''),
                   Call log_effect (Some ''nodeC'') (Some ''y'')] (new_tracker []))
       (run_calls [Call log_effect (Some ''nodeA'') (Some ''x''),
                   Call log_effect (Some ''nodeB'') (Some ''x''),
                   Call log_effect (Some ''nodeC'') (Some ''y''),
                   Call log_effect None (Some ''x'')] (new_tracker []))
     = [CleanupCall (log_cleanup ''nodeB'')] \<and>
   log_cleanup ''nodeA'' \<notin> ran (cleanupsMap
       (run_calls [Call log_effect (Some ''nodeA'') (Some ''x''),
                   Call log_effect (Some ''nodeB'') (Some ''x'')] (new_tracker []))) \<and>
   CleanupCall (log_cleanup ''nodeA'') \<notin> set (new_invocations
       (run_calls [Call log_effect (Some ''nodeA'') (Some ''x''),
                   Call log_effect (Some ''nodeB'') (Some ''x'')] (new_tracker []))
       (run_calls [Call log_effect (Some ''nodeA'') (Some ''x''),
                   Call log_effect (Some ''nodeB'') (Some ''x''),
                   Call log_effect (Some ''nodeC'') (Some ''y''),
                   Call log_effect None (Some ''x''),
                   Call log_effect None (Some ''x'')] (new_tracker [])))"
proof -
  let ?init = "new_tracker [] :: (string, string list, string) tracker"
  let ?s = "run_calls [Call log_effect (Some ''nodeA'') (Some ''x'')] ?init"
  let ?t = "snd (refCallback log_effect (Some ''nodeB'') (Some ''x'') ?s)"
  let ?ds = "[Call log_effect (Some ''nodeC'') (Some ''y'')]"
  let ?u = "run_calls ?ds ?t"
  let ?cs = "[Call log_effect (Some ''nodeC'') (Some ''y''),
              Call log_effect None (Some ''x''), Call log_effect None (Some ''x'')]"
  have h1: "cleanupsMap ?s (default_nodeId (Some ''x'')) = Some (log_cleanup ''nodeA'')"
    by (simp add: example_defs)
  have h2: "fst (log_effect ''nodeB'' (world ?s)) = Returned (Some (log_cleanup ''nodeB''))"
    by (simp add: log_effect_def)
  have h3: "log_cleanup ''nodeA'' \<notin> ran (cleanupsMap ?t)"
    by (simp add: example_defs ran_def log_cleanup_inject)
  have h4: "list_all (\<lambda>st. cleanup_returned st \<noteq> Some (log_cleanup ''nodeA'')) (history ?cs ?t)"
    by (simp add: step_of_def cleanup_returned_def log_effect_def log_cleanup_inject)
  have h5: "no_call_under (default_nodeId (Some ''x'')) ?ds"
    by (simp add: no_call_under_def default_nodeId_def)
  have ws: "world ?s = [''effect:nodeA'']"
    by (simp add: example_defs)
  note inst = reattach_overwrites_without_cleanup
    [where s = ?s and nodeId = "Some ''x''" and f_old = "log_cleanup ''nodeA''"
       and f_new = "log_cleanup ''nodeB''" and effect = log_effect and n = "''nodeB''"
       and cs = ?cs and ds = ?ds and effect' = log_effect, OF h1 h2 refl refl]
  from inst
  have m: "cleanupsMap ?t = (cleanupsMap ?s)(default_nodeId (Some ''x'') \<mapsto> log_cleanup ''nodeB'')"
    and wt: "world ?t = snd (log_effect ''nodeB'' (world ?s))"
    by blast+
  from inst h3 h4
  have never: "CleanupCall (log_cleanup ''nodeA'') \<notin> set (new_invocations ?t (run_calls ?cs ?t))"
    by blast
  from inst h5
  have wd: "world (snd (refCallback log_effect None (Some ''x'') ?u))
              = snd (log_cleanup ''nodeB'' (world ?u))"
    and nd: "new_invocations ?u (snd (refCallback log_effect None (Some ''x'') ?u))
              = [CleanupCall (log_cleanup ''nodeB'')]"
    by blast+
  have wt': "world ?t = [''effect:nodeA'', ''effect:nodeB'']"
    using wt ws by (simp add: log_effect_def)
  have wu: "world ?u = world ?t @ [''effect:nodeC'']"
    by (simp add: invoke_def refCallback_def Let_def log_effect_def)
  have wd': "world (snd (refCallback log_effect None (Some ''x'') ?u))
              = [''effect:nodeA'', ''effect:nodeB'', ''effect:nodeC'', ''cleanup:nodeB'']"
    using wd wu wt' by (simp add: log_cleanup_def)
  have m': "cleanupsMap ?t ''x'' = Some (log_cleanup ''nodeB'')"
    using m by (simp add: default_nodeId_def)
  have run2: "run_calls [Call log_effect (Some ''nodeA'') (Some ''x''),
                   Call log_effect (Some ''nodeB'') (Some ''x'')] ?init = ?t"
    by (simp add: invoke_def)
  have run3: "run_calls [Call log_effect (Some ''nodeA'') (Some ''x''),
                   Call log_effect (Some ''nodeB'') (Some ''x''),
                   Call log_effect (Some ''nodeC'') (Some ''y'')] ?init = ?u"
    by (simp add: invoke_def)
  have run4: "run_calls [Call log_effect (Some ''nodeA'') (Some ''x''),
                   Call log_effect (Some ''nodeB'') (Some ''x''),
                   Call log_effect (Some ''nodeC'') (Some ''y''),
                   Call log_effect None (Some ''x'')] ?init
                = snd (refCallback log_effect None (Some ''x'') ?u)"
    by (simp add: invoke_def)
  have run5: "run_calls [Call log_effect (Some ''nodeA'') (Some ''x''),
                   Call log_effect (Some ''nodeB'') (Some ''x''),
                   Call log_effect (Some ''nodeC'') (Some ''y''),
                   Call log_effect None (Some ''x''),
                   Call log_effect None (Some ''x'')] ?init = run_calls ?cs ?t"
    by (simp add: invoke_def)
  from h1 h2 h3 h5 m' wt' wd' nd never show ?thesis
    unfolding run5 run4 run3 run2 by blast
qed

subsection \<open>The registry invariant\<close>

text \<open>
  Claim C1, as stated, at a concrete input: \<open>attach(nodeA, x)\<close> at which the effect
  returns a cleanup, then \<open>attach(nodeB, x)\<close> at which it returns nothing. The entry
  under \<open>x\<close> exists, although the effect returned no cleanup at the most recent
  attach under \<open>x\<close>.
\<close>

theorem stale_entry_counterexample:
  "cleanupsMap
       (run_calls [Call picky_effect (Some ''nodeA'') (Some ''x''),
                   Call picky_effect (Some ''nodeB'') (Some ''x'')] (new_tracker [])) ''x''
     = Some (log_cleanup ''nodeA'') \<and>
   \<not> entry_expected_as_stated ''x''
       (history [Call picky_effect (Some ''nodeA'') (Some ''x''),
                 Call picky_effect (Some ''nodeB'') (Some ''x'')] (new_tracker []))"
  by (simp add: example_defs entry_expected_as_stated_def attach_under_def step_key_def
        step_of_def cleanup_returned_def)

text \<open>
  The other way the stated invariant fails: after \<open>attach(nodeA, x)\<close> and a detach at
  which the cleanup throws, the cleanup has been invoked and the entry is still there.
\<close>

lemma invoked_cleanup_entry_stays:
  "cleanupsMap
       (run_calls [Call fragile_effect (Some ''nodeA'') (Some ''x''),
                   Call fragile_effect None (Some ''x'')] (new_tracker [])) ''x''
     = Some failing_cleanup \<and>
   \<not> entry_expected_as_stated ''x''
       (history [Call fragile_effect (Some ''nodeA'') (Some ''x''),
                 Call fragile_effect None (Some ''x'')] (new_tracker []))"
  by (simp add: example_defs entry_expected_as_stated_def attach_under_def step_key_def
        step_of_def cleanup_returned_def step_invocations_def new_invocations_def
        failing_cleanup_def)

lemma invoke_registers:
  "registers K (step_of c s) \<Longrightarrow> cleanupsMap (snd (invoke c s)) K \<noteq> None"
  by (cases "call_effect c (the (call_node c)) (world s)")
     (auto simp: registers_def attach_under_def cleanup_returned_def step_of_def step_key_def
        invoke_def refCallback_def Let_def split: option.splits effect_return.splits)

lemma invoke_detach_completes:
  "detach_completes K (step_of c s) \<Longrightarrow> cleanupsMap (snd (invoke c s)) K = None"
  by (auto simp: detach_completes_def step_of_def step_key_def
        invoke_def refCallback_def Let_def split: option.splits prod.splits)

lemma invoke_neither:
  "\<not> registers K (step_of c s) \<Longrightarrow> \<not> detach_completes K (step_of c s) \<Longrightarrow>
   cleanupsMap (snd (invoke c s)) K = cleanupsMap s K"
  by (cases "default_nodeId (call_id c) = K")
     (auto simp: registers_def detach_completes_def attach_under_def cleanup_returned_def
        step_of_def step_key_def invoke_def refCallback_def Let_def
        split: option.splits prod.splits effect_return.splits)

lemma entry_after_calls:
  "cleanupsMap (run_calls cs s) K \<noteq> None \<longleftrightarrow>
     (case filter (\<lambda>st. registers K st \<or> detach_completes K st) (history cs s) of
        [] \<Rightarrow> cleanupsMap s K \<noteq> None
      | st # sts \<Rightarrow> registers K (last (st # sts)))"
proof (induction cs arbitrary: s)
  case Nil
  show ?case by simp
next
  case (Cons c cs)
  let ?s1 = "snd (invoke c s)"
  let ?rest = "filter (\<lambda>st. registers K st \<or> detach_completes K st) (history cs ?s1)"
  have excl: "\<not> (registers K (step_of c s) \<and> detach_completes K (step_of c s))"
    by (auto simp: registers_def detach_completes_def attach_under_def)
  show ?case
  proof (cases ?rest)
    case Nil
    with Cons.IH [of ?s1] have "cleanupsMap (run_calls cs ?s1) K \<noteq> None \<longleftrightarrow> cleanupsMap ?s1 K \<noteq> None"
      by simp
    with Nil excl show ?thesis
      using invoke_registers [of K c s] invoke_detach_completes [of K c s]
        invoke_neither [of K c s]
      by auto
  next
    case (Cons st sts)
    with Cons.IH [of ?s1] show ?thesis by simp
  qed
qed

lemma new_tracker_empty: "cleanupsMap (new_tracker w) K = None"
  by (simp add: new_tracker_def)

text \<open>
  Claim C1, amended. After any sequence of calls on a new tracker, an entry exists for
  \<open>K\<close> if and only if some attach of a node under \<open>K\<close> had the effect return a
  cleanup action and no detach under \<open>K\<close> has returned without an exception since
  the most recent such attach.
\<close>

theorem registry_entry_characterised:
  "cleanupsMap (run_calls cs (new_tracker w)) K \<noteq> None \<longleftrightarrow>
     entry_expected K (history cs (new_tracker w))"
proof -
  let ?relevant = "filter (\<lambda>st. registers K st \<or> detach_completes K st)
                     (history cs (new_tracker w))"
  from entry_after_calls [of cs "new_tracker w" K] show ?thesis
    by (cases ?relevant) (simp_all add: entry_expected_def new_tracker_empty)
qed

theorem registry_entry_characterised_witness:
  "entry_expected ''y''
     (history [Call picky_effect (Some ''nodeA'') (Some ''x''),
               Call picky_effect (Some ''nodeB'') (Some ''x''),
               Call fragile_effect (Some ''nodeC'') (Some ''y''),
               Call fragile_effect None (Some ''y''),
               Call picky_effect None (Some ''x'')] (new_tracker [])) \<and>
   cleanupsMap
     (run_calls [Call picky_effect (Some ''nodeA'') (Some ''x''),
               Call picky_effect (Some ''nodeB'') (Some ''x''),
               Call fragile_effect (Some ''nodeC'') (Some ''y''),
               Call fragile_effect None (Some ''y''),
               Call picky_effect None (Some ''x'')] (new_tracker [])) ''y'' \<noteq> None \<and>
   \<not> entry_expected ''x''
     (history [Call picky_effect (Some ''nodeA'') (Some ''x''),
               Call picky_effect (Some ''nodeB'') (Some ''x''),
               Call fragile_effect (Some ''nodeC'') (Some ''y''),
               Call fragile_effect None (Some ''y''),
               Call picky_effect None (Some ''x'')] (new_tracker [])) \<and>
   cleanupsMap
     (run_calls [Call picky_effect (Some ''nodeA'') (Some ''x''),
               Call picky_effect (Some ''nodeB'') (Some ''x''),
               Call fragile_effect (Some ''nodeC'') (Some ''y''),
               Call fragile_effect None (Some ''y''),
               Call picky_effect None (Some ''x'')] (new_tracker [])) ''x'' = None"
proof -
  let ?cs = "[Call picky_effect (Some ''nodeA'') (Some ''x''),
               Call picky_effect (Some ''nodeB'') (Some ''x''),
               Call fragile_effect (Some ''nodeC'') (Some ''y''),
               Call fragile_effect None (Some ''y''),
               Call picky_effect None (Some ''x'')]"
  let ?init = "new_tracker [] :: (string, string list, string) tracker"
  have y: "entry_expected ''y'' (history ?cs ?init)"
    by (simp add: example_defs entry_expected_def registers_def detach_completes_def
          attach_under_def step_key_def step_of_def cleanup_returned_def failing_cleanup_def
          log_cleanup_def)
  have x: "\<not> entry_expected ''x'' (history ?cs ?init)"
    by (simp add: example_defs entry_expected_def registers_def detach_completes_def
          attach_under_def step_key_def step_of_def cleanup_returned_def failing_cleanup_def
          log_cleanup_def)
  from registry_entry_characterised [of ?cs "[]" "''y''"]
       registry_entry_characterised [of ?cs "[]" "''x''"] x y
  show ?thesis by blast
qed

subsection \<open>The callback across renders\<close>

lemma areHookInputsEqual_same_length:
  "length xs = length ys \<Longrightarrow> areHookInputsEqual xs ys \<longleftrightarrow> xs = ys"
  by (auto simp: areHookInputsEqual_def list_all_iff list_eq_iff_zip_eq)

lemma useRefCallback_memo:
  assumes "memo_ok L h" and "length deps = L" and "useRefCallback effect deps h = (cb, h')"
  shows "memo h' = Some (cb, effect # deps) \<and> created_at cb < renders h' \<and> memo_ok L h'"
proof (cases "memo h")
  case None
  with assms show ?thesis
    by (auto simp: useRefCallback_def useCallback_def memo_ok_def)
next
  case (Some cell)
  obtain prevFn prevDeps where cell: "cell = (prevFn, prevDeps)" by (cases cell)
  with Some assms(1) have len: "length prevDeps = Suc L" and old: "created_at prevFn < renders h"
    by (simp_all add: memo_ok_def)
  from len assms(2)
  have eq: "areHookInputsEqual (effect # deps) prevDeps \<longleftrightarrow> effect # deps = prevDeps"
    by (simp add: areHookInputsEqual_same_length)
  show ?thesis
  proof (cases "effect # deps = prevDeps")
    case True
    with Some cell eq assms(3) old len show ?thesis
      by (auto simp: useRefCallback_def useCallback_def memo_ok_def)
  next
    case False
    with Some cell eq assms(2,3) show ?thesis
      by (auto simp: useRefCallback_def useCallback_def memo_ok_def)
  qed
qed

lemma rerender_memo_ok:
  "memo_ok L h \<Longrightarrow> list_all (\<lambda>r. length (snd r) = L) rs \<Longrightarrow> memo_ok L (rerender rs h)"
proof (induction rs arbitrary: h)
  case Nil
  then show ?case by simp
next
  case (Cons r rs)
  obtain effect deps where r: "r = (effect, deps)" by (cases r)
  obtain cb h' where u: "useRefCallback effect deps h = (cb, h')"
    by (cases "useRefCallback effect deps h")
  from Cons.prems(2) r have len: "length deps = L"
    and rest: "list_all (\<lambda>r. length (snd r) = L) rs"
    by simp_all
  from useRefCallback_memo [OF Cons.prems(1) len u] have "memo_ok L h'" by simp
  from Cons.IH [OF this rest] r u show ?case by simp
qed

lemma mount_memo_ok: "memo_ok L mount"
  by (simp add: memo_ok_def mount_def)

text \<open>
  Claim C6, as stated, at a concrete input: three renders with the same effect and the
  dependency lists \<open>[1]\<close>, \<open>[1, 2]\<close> and \<open>[1, 3]\<close>. The third render hands out the
  callback of the second, although the second dependency differs from the previous
  render: the host compares with the list it stored at the first render, which has no
  second dependency.
\<close>

theorem grown_dependency_list_counterexample:
  "[1, 3 :: nat] ! 1 \<noteq> [1, 2] ! 1 \<and>
   fst (useRefCallback (0::nat) [1, 3] (rerender [(0, [1]), (0, [1, 2])] mount))
     = fst (useRefCallback (0::nat) [1, 2] (rerender [(0, [1])] mount))"
  by (simp add: useRefCallback_def useCallback_def areHookInputsEqual_def mount_def)

text \<open>A dependency list that loses its last element keeps the callback as well.\<close>

lemma shorter_dependency_list_keeps_callback:
  "fst (useRefCallback (0::nat) [1] (rerender [(0, [1, 2])] mount))
     = fst (useRefCallback (0::nat) [1, 2] mount)"
  by (simp add: useRefCallback_def useCallback_def areHookInputsEqual_def mount_def)

text \<open>
  Claim C6, amended. Take a mounted hook whose renders all have dependency lists of one
  length, and two consecutive renders of it. The callback handed out by the second
  differs from the one handed out by the first if and only if the effect differs or
  some dependency differs from the one at its position in the previous render;
  otherwise it is the same callback. A callback that differs is the function the second
  render created, over the second render's effect.
\<close>

theorem callback_identity_follows_dependencies:
  assumes "list_all (\<lambda>r. length (snd r) = L) rs"
    and "h = rerender rs mount"
    and "useRefCallback effect_prev deps_prev h = (cb_prev, h_prev)"
    and "useRefCallback effect_next deps_next h_prev = (cb_next, h_next)"
    and "length deps_prev = L"
    and "length deps_next = L"
  shows "(cb_next \<noteq> cb_prev \<longleftrightarrow>
            effect_next \<noteq> effect_prev \<or> (\<exists>i<L. deps_next ! i \<noteq> deps_prev ! i)) \<and>
         (cb_next \<noteq> cb_prev \<longrightarrow> cb_next = Callback (renders h_prev) effect_next)"
proof -
  have "memo_ok L h"
    using assms(1,2) by (simp add: rerender_memo_ok mount_memo_ok)
  from useRefCallback_memo [OF this assms(5) assms(3)]
  have m: "memo h_prev = Some (cb_prev, effect_prev # deps_prev)"
    and old: "created_at cb_prev < renders h_prev"
    by simp_all
  have "areHookInputsEqual (effect_next # deps_next) (effect_prev # deps_prev) \<longleftrightarrow>
          effect_next # deps_next = effect_prev # deps_prev"
    using assms(5,6) by (simp add: areHookInputsEqual_same_length)
  then have "cb_next = (if effect_next # deps_next = effect_prev # deps_prev then cb_prev
                        else Callback (renders h_prev) effect_next)"
    using assms(4) m
    by (auto simp: useRefCallback_def useCallback_def split: if_splits)
  moreover have "Callback (renders h_prev) effect_next \<noteq> cb_prev"
    using old by (cases cb_prev) auto
  moreover have "deps_next = deps_prev \<longleftrightarrow> \<not> (\<exists>i<L. deps_next ! i \<noteq> deps_prev ! i)"
    using assms(5,6) by (auto simp: list_eq_iff_nth_eq)
  ultimately show ?thesis by auto
qed

theorem callback_identity_follows_dependencies_witness:
  "list_all (\<lambda>r. length (snd r) = 2) [(0::nat, [5, 6 :: nat])] \<and>
   length [1, 2 :: nat] = 2 \<and> length [1, 3 :: nat] = 2 \<and>
   fst (useRefCallback (0::nat) [1, 2] (rerender [(0, [5, 6])] mount)) = Callback 1 0 \<and>
   fst (useRefCallback 0 [1, 3]
          (snd (useRefCallback (0::nat) [1, 2] (rerender [(0, [5, 6])] mount))))
     = Callback 2 0 \<and>
   fst (useRefCallback 7 [1, 2]
          (snd (useRefCallback (0::nat) [1, 2] (rerender [(0, [5, 6])] mount))))
     = Callback 2 7 \<and>
   fst (useRefCallback 0 [1, 2]
          (snd (useRefCallback (0::nat) [1, 2] (rerender [(0, [5, 6])] mount))))
     = Callback 1 0"
proof -
  let ?h = "rerender [(0::nat, [5, 6 :: nat])] mount"
  let ?r = "useRefCallback (0::nat) [1, 2] ?h"
  have rs: "list_all (\<lambda>r. length (snd r) = 2) [(0::nat, [5, 6 :: nat])]"
    by simp
  have a: "fst ?r = Callback 1 0"
    by (simp add: useRefCallback_def useCallback_def mount_def areHookInputsEqual_def)
  have n: "renders (snd ?r) = 2"
    by (simp add: useRefCallback_def useCallback_def mount_def areHookInputsEqual_def)
  have ex: "\<exists>i<2. [1, 3 :: nat] ! i \<noteq> [1, 2] ! i"
    by (rule exI [of _ 1]) simp
  have no: "\<not> (\<exists>i<2. [1, 2 :: nat] ! i \<noteq> [1, 2] ! i)"
    by simp
  have dependency: "fst (useRefCallback 0 [1, 3] (snd ?r)) = Callback (renders (snd ?r)) 0"
    using callback_identity_follows_dependencies
      [where rs = "[(0::nat, [5, 6 :: nat])]" and L = 2 and h = ?h
         and effect_prev = "0::nat" and deps_prev = "[1, 2]"
         and effect_next = 0 and deps_next = "[1, 3]" and cb_prev = "fst ?r" and h_prev = "snd ?r"
         and cb_next = "fst (useRefCallback 0 [1, 3] (snd ?r))"
         and h_next = "snd (useRefCallback 0 [1, 3] (snd ?r))", OF rs refl] ex
    by simp
  have effect: "fst (useRefCallback 7 [1, 2] (snd ?r)) = Callback (renders (snd ?r)) 7"
    using callback_identity_follows_dependencies
      [where rs = "[(0::nat, [5, 6 :: nat])]" and L = 2 and h = ?h
         and effect_prev = "0::nat" and deps_prev = "[1, 2]"
         and effect_next = 7 and deps_next = "[1, 2]" and cb_prev = "fst ?r" and h_prev = "snd ?r"
         and cb_next = "fst (useRefCallback 7 [1, 2] (snd ?r))"
         and h_next = "snd (useRefCallback 7 [1, 2] (snd ?r))", OF rs refl]
    by simp
  have kept: "fst (useRefCallback 0 [1, 2] (snd ?r)) = fst ?r"
    using callback_identity_follows_dependencies
      [where rs = "[(0::nat, [5, 6 :: nat])]" and L = 2 and h = ?h
         and effect_prev = "0::nat" and deps_prev = "[1, 2]"
         and effect_next = 0 and deps_next = "[1, 2]" and cb_prev = "fst ?r" and h_prev = "snd ?r"
         and cb_next = "fst (useRefCallback 0 [1, 2] (snd ?r))"
         and h_next = "snd (useRefCallback 0 [1, 2] (snd ?r))", OF rs refl] no
    by simp
  from rs a n dependency effect kept show ?thesis by simp
qed

end
